theory Spec2Isabelle
  imports Complex_Main
begin

section \<open>Python and numpy primitives\<close>

text \<open>
  The two notebooks compute with floating-point numbers; the embedding computes with
  exact reals. Every exception the notebooks' code can raise is a value of \<open>error\<close>.
  \<open>NotReal\<close> marks the places where Python would go on with a complex number, a NaN or
  an infinity: the real-valued model stops there.
\<close>

datatype error = IndexError | ValueError | NameError | ZeroDivisionError | NotReal

definition np_zeros :: "nat \<Rightarrow> real list" where
  "np_zeros n = replicate n 0"

text \<open>\<open>a[i]\<close> on a one-dimensional array, with a non-negative index.\<close>

definition getitem :: "'a list \<Rightarrow> nat \<Rightarrow> error + 'a" where
  "getitem a i = (if i < length a then Inr (a ! i) else Inl IndexError)"

text \<open>\<open>a[i, j]\<close> on a two-dimensional array, stored as the list of its rows.\<close>

definition getitem2 :: "'a list list \<Rightarrow> nat \<Rightarrow> nat \<Rightarrow> error + 'a" where
  "getitem2 a i j =
     (if i < length a \<and> j < length (a ! i) then Inr (a ! i ! j) else Inl IndexError)"

text \<open>Sequencing: the first exception raised ends the computation.\<close>

definition and_then :: "error + 'a \<Rightarrow> ('a \<Rightarrow> error + 'b) \<Rightarrow> error + 'b" where
  "and_then m f = (case m of Inl err \<Rightarrow> Inl err | Inr x \<Rightarrow> f x)"

text \<open>\<open>x / y\<close> on Python floats raises ZeroDivisionError for a zero divisor.\<close>

definition py_div :: "real \<Rightarrow> real \<Rightarrow> error + real" where
  "py_div x y = (if y = 0 then Inl ZeroDivisionError else Inr (x / y))"

text \<open>
  \<open>x ** y\<close> on Python floats: zero to a negative power raises ZeroDivisionError,
  \<open>0.0 ** 0.0\<close> is \<open>1.0\<close>, and a negative base with an exponent that is not a whole
  number gives a complex number.
\<close>

definition py_pow :: "real \<Rightarrow> real \<Rightarrow> error + real" where
  "py_pow x y =
     (if 0 < x then Inr (x powr y)
      else if x = 0 then
        (if y < 0 then Inl ZeroDivisionError else if y = 0 then Inr 1 else Inr 0)
      else if y = of_int \<lfloor>y\<rfloor> then Inr (power_int x \<lfloor>y\<rfloor>)
      else Inl NotReal)"

text \<open>
  \<open>x ** y\<close> on a numpy array, for one element. numpy never raises here; for a positive
  base the value is the real power, and that is the only case the results below use
  (a base that is not positive can give NaN or an infinity).
\<close>

definition np_power :: "real \<Rightarrow> real \<Rightarrow> real" where
  "np_power x y = x powr y"

text \<open>\<open>a.max()\<close>: a reduction with no identity, so it raises on an empty array.\<close>

definition np_max :: "real list \<Rightarrow> error + real" where
  "np_max a = (case a of [] \<Rightarrow> Inl ValueError | x # xs \<Rightarrow> Inr (fold max xs x))"

text \<open>
  \<open>np.argmax\<close> scans from the left and keeps the first position of the largest value:
  the best position changes only when a strictly larger value is met.
\<close>

fun argmax_scan :: "real list \<Rightarrow> nat \<Rightarrow> nat \<Rightarrow> real \<Rightarrow> nat" where
  "argmax_scan [] j b m = b"
| "argmax_scan (x # xs) j b m =
     (if m < x then argmax_scan xs (Suc j) j x else argmax_scan xs (Suc j) b m)"

text \<open>
  \<open>a.max(axis=1)\<close> and \<open>np.argmax(a, axis=1)\<close> on an array with \<open>ncols\<close> columns: one
  result per row, the maximum of the row and the position \<open>argmax_scan\<close> finds from its
  first element on; the reduction raises when the reduced axis is empty.
\<close>

definition max_axis1 :: "nat \<Rightarrow> real list list \<Rightarrow> error + real list" where
  "max_axis1 ncols a =
     (if ncols = 0 then Inl ValueError else Inr (map (\<lambda>row. fold max (tl row) (hd row)) a))"

definition argmax_axis1 :: "nat \<Rightarrow> real list list \<Rightarrow> error + nat list" where
  "argmax_axis1 ncols a =
     (if ncols = 0 then Inl ValueError
      else Inr (map (\<lambda>row. argmax_scan (tl row) 1 0 (hd row)) a))"

section \<open>DeterministicFirmVFI: value function iteration\<close>

text \<open>
  The variables the \<open>while\<close> loop of the notebook reads and writes. \<open>PF\<close> is bound for
  the first time inside the loop, so it is optional: \<open>None\<close> is the unbound name.
  \<open>Vstore\<close> is kept as the list of its columns, \<open>Vstore[:, c]\<close> being \<open>Vstore ! c\<close>.
\<close>

record vfi_state =
  V :: "real list"
  PF :: "nat list option"
  VFdist :: real
  VFiter :: nat
  Vstore :: "real list list"

text \<open>
  The two nested \<open>for\<close> loops: \<open>Vmat[i, j] = e[i, j] + betafirm * V[j]\<close> for all
  \<open>i, j < sizek\<close>. A read outside \<open>e\<close> or \<open>V\<close> raises IndexError; \<open>e_shape\<close> says that
  \<open>e\<close> has the rows and columns the loops read.
\<close>

definition e_shape :: "real list list \<Rightarrow> nat \<Rightarrow> bool" where
  "e_shape e sizek = list_all (\<lambda>i. i < length e \<and> sizek \<le> length (e ! i)) [0..<sizek]"

definition Vmat_fill :: "real list list \<Rightarrow> real \<Rightarrow> real list \<Rightarrow> nat \<Rightarrow> error + real list list" where
  "Vmat_fill e betafirm v sizek =
     (if e_shape e sizek \<and> sizek \<le> length v
      then Inr (map (\<lambda>i. map (\<lambda>j. e ! i ! j + betafirm * v ! j) [0..<sizek]) [0..<sizek])
      else Inl IndexError)"

text \<open>\<open>(np.absolute(V - TV)).max()\<close>, for two vectors of one length.\<close>

definition sup_dist :: "real list \<Rightarrow> real list \<Rightarrow> error + real" where
  "sup_dist v tv = np_max (map2 (\<lambda>a b. \<bar>a - b\<bar>) v tv)"

text \<open>The body of the \<open>while\<close> loop.\<close>

definition VFI_step :: "real list list \<Rightarrow> real \<Rightarrow> nat \<Rightarrow> vfi_state \<Rightarrow> error + vfi_state" where
  "VFI_step e betafirm sizek s =
     (let TV = V s in
      and_then (Vmat_fill e betafirm (V s) sizek) (\<lambda>Vmat.
      and_then (if VFiter s < length (Vstore s)
                then Inr ((Vstore s)[VFiter s := V s]) else Inl IndexError) (\<lambda>Vstore'.
      and_then (max_axis1 sizek Vmat) (\<lambda>V'.
      and_then (argmax_axis1 sizek Vmat) (\<lambda>PF'.
      and_then (sup_dist V' TV) (\<lambda>d.
        Inr \<lparr>V = V', PF = Some PF', VFdist = d,
             VFiter = VFiter s + 1, Vstore = Vstore'\<rparr>))))))"

text \<open>\<open>while VFdist > VFtol and VFiter < VFmaxiter\<close>.\<close>

function VFI_loop ::
  "real list list \<Rightarrow> real \<Rightarrow> nat \<Rightarrow> real \<Rightarrow> nat \<Rightarrow> vfi_state \<Rightarrow> error + vfi_state" where
  "VFI_loop e betafirm sizek VFtol VFmaxiter s =
     (if VFdist s > VFtol \<and> VFiter s < VFmaxiter then
        (case VFI_step e betafirm sizek s of
           Inl err \<Rightarrow> Inl err
         | Inr s' \<Rightarrow> VFI_loop e betafirm sizek VFtol VFmaxiter s')
      else Inr s)"
  by pat_completeness auto
termination
  by (relation "measure (\<lambda>(e, betafirm, sizek, VFtol, VFmaxiter, s). VFmaxiter - VFiter s)")
     (auto simp: VFI_step_def and_then_def Let_def split: sum.splits if_splits)

declare VFI_loop.simps [simp del]

text \<open>
  The initialisation cell: \<open>VFdist = 7.0\<close>, \<open>V = np.zeros(sizek)\<close>,
  \<open>Vstore = np.zeros((sizek, VFmaxiter))\<close>, \<open>VFiter = 1\<close>.
\<close>

definition VFI_init :: "nat \<Rightarrow> nat \<Rightarrow> vfi_state" where
  "VFI_init sizek VFmaxiter =
     \<lparr>V = np_zeros sizek, PF = None, VFdist = 7, VFiter = 1,
      Vstore = replicate VFmaxiter (np_zeros sizek)\<rparr>"

definition VFI :: "real list list \<Rightarrow> real \<Rightarrow> nat \<Rightarrow> real \<Rightarrow> nat \<Rightarrow> error + vfi_state" where
  "VFI e betafirm sizek VFtol VFmaxiter =
     VFI_loop e betafirm sizek VFtol VFmaxiter (VFI_init sizek VFmaxiter)"

text \<open>
  The state after \<open>n\<close> passes of the loop body, whatever the loop test says: the
  sequence of iterates the statements about the loop refer to.
\<close>

fun VFI_run :: "real list list \<Rightarrow> real \<Rightarrow> nat \<Rightarrow> vfi_state \<Rightarrow> nat \<Rightarrow> error + vfi_state" where
  "VFI_run e betafirm sizek s 0 = Inr s"
| "VFI_run e betafirm sizek s (Suc n) =
     and_then (VFI_step e betafirm sizek s) (\<lambda>s'. VFI_run e betafirm sizek s' n)"

text \<open>
  The loop test in the words of the specification, for comparison with the test of
  \<open>VFI_loop\<close>: after \<open>n\<close> Bellman updates the loop is over when the distance of the
  last update is at most the tolerance or \<open>n\<close> has reached \<open>maxIter\<close>.
\<close>

definition spec_loop_over :: "real \<Rightarrow> nat \<Rightarrow> vfi_state \<Rightarrow> nat \<Rightarrow> bool" where
  "spec_loop_over VFtol maxIter s n = (VFdist s \<le> VFtol \<or> maxIter \<le> n)"

text \<open>
  The report after the loop: \<open>if VFiter < VFmaxiter\<close> prints that the value function
  converged, \<open>else\<close> that it did not.
\<close>

definition converged :: "nat \<Rightarrow> vfi_state \<Rightarrow> bool" where
  "converged VFmaxiter s = (VFiter s < VFmaxiter)"

text \<open>
  \<open>optK = kvec[PF]\<close>: reading the name \<open>PF\<close> raises NameError when the loop never bound
  it; indexing with an array of positions raises IndexError when one is out of range.
\<close>

definition optK :: "real list \<Rightarrow> vfi_state \<Rightarrow> error + real list" where
  "optK kvec s =
     (case PF s of
        None \<Rightarrow> Inl NameError
      | Some pf \<Rightarrow>
          if list_all (\<lambda>p. p < length kvec) pf then Inr (map (\<lambda>p. kvec ! p) pf)
          else Inl IndexError)"

section \<open>DeterministicFirmVFI: capital grid and payoff matrix\<close>

text \<open>
  The frictionless steady-state capital, as the notebook writes it:
  \<open>((((1 / betafirm - 1 + delta) * ((w / alpha_l) ** (alpha_l / (1 - alpha_l)))) /
     (alpha_k * (z ** (1 / (1 - alpha_l))))) ** ((1 - alpha_l) / (alpha_k + alpha_l - 1)))\<close>,
  all on Python floats, evaluated left to right.
\<close>

definition kstar :: "real \<Rightarrow> real \<Rightarrow> real \<Rightarrow> real \<Rightarrow> real \<Rightarrow> real \<Rightarrow> error + real" where
  "kstar betafirm delta w alpha_l alpha_k z =
     and_then (py_div 1 betafirm) (\<lambda>rb.
     and_then (py_div w alpha_l) (\<lambda>wl.
     and_then (py_div alpha_l (1 - alpha_l)) (\<lambda>ex1.
     and_then (py_pow wl ex1) (\<lambda>pw1.
     and_then (py_div 1 (1 - alpha_l)) (\<lambda>ex2.
     and_then (py_pow z ex2) (\<lambda>pw2.
     and_then (py_div ((rb - 1 + delta) * pw1) (alpha_k * pw2)) (\<lambda>base.
     and_then (py_div (1 - alpha_l) (alpha_k + alpha_l - 1)) (\<lambda>ex3.
     py_pow base ex3))))))))"

text \<open>
  The grid cell, from \<open>krat = np.log(lb_k / ub_k)\<close> to \<open>kvec = K[::-1]\<close>.
  \<open>np.log\<close> of a number that is not positive is NaN or minus infinity and a zero
  \<open>np.log(1 - delta)\<close> divides to an infinity: \<open>NotReal\<close>. \<open>np.zeros\<close> of a negative
  size raises ValueError.
\<close>

definition capital_grid :: "real \<Rightarrow> nat \<Rightarrow> real \<Rightarrow> real \<Rightarrow> error + real list" where
  "capital_grid delta dens lb_k ub_k =
     and_then (py_div lb_k ub_k) (\<lambda>q.
       if q \<le> 0 \<or> 1 - delta \<le> 0 \<or> ln (1 - delta) = 0 then Inl NotReal
       else
         let krat = ln q;
             numb = \<lceil>krat / ln (1 - delta)\<rceil>;
             n = numb * int dens
         in if n < 0 then Inl ValueError
            else Inr (rev (map (\<lambda>j. ub_k * (1 - delta) powr (real j / real dens))
                               [0..<nat n])))"

text \<open>\<open>kbar = 2*kstar\<close>, \<open>ub_k = kbar\<close>, then the grid.\<close>

definition kvec_build ::
  "real \<Rightarrow> real \<Rightarrow> real \<Rightarrow> real \<Rightarrow> real \<Rightarrow> real \<Rightarrow> nat \<Rightarrow> real \<Rightarrow> error + real list" where
  "kvec_build betafirm delta w alpha_l alpha_k z dens lb_k =
     and_then (kstar betafirm delta w alpha_l alpha_k z) (\<lambda>ks.
       capital_grid delta dens lb_k (2 * ks))"

text \<open>
  Operating profits \<open>op\<close>: the scalar factor is computed on Python floats, the power
  of \<open>kvec\<close> elementwise by numpy.
\<close>

definition op_vec :: "real \<Rightarrow> real \<Rightarrow> real \<Rightarrow> real list \<Rightarrow> error + real list" where
  "op_vec alpha_l w alpha_k kvec =
     and_then (py_div alpha_l w) (\<lambda>lw.
     and_then (py_div alpha_l (1 - alpha_l)) (\<lambda>ex1.
     and_then (py_pow lw ex1) (\<lambda>pw1.
     and_then (py_div 1 (1 - alpha_l)) (\<lambda>ex2.
       Inr (map (\<lambda>k. (1 - alpha_l) * pw1 * np_power (np_power k alpha_k) ex2) kvec)))))"

text \<open>Firm cash flow \<open>e\<close>, filled by the two nested loops over \<open>range(sizek)\<close>.\<close>

definition e_mat :: "real list \<Rightarrow> real list \<Rightarrow> real \<Rightarrow> real \<Rightarrow> real list list" where
  "e_mat opv kvec delta psi =
     (let sizek = length kvec in
      map (\<lambda>i. map (\<lambda>j.
             opv ! i - kvec ! j + ((1 - delta) * kvec ! i) -
             ((psi / 2) * ((kvec ! j - ((1 - delta) * kvec ! i)) ^ 2) / kvec ! i))
           [0..<sizek]) [0..<sizek])"

section \<open>ApproxAR: simulating the Markov chain\<close>

text \<open>
  The inner \<open>while sum_p < u[i]\<close> loop of \<open>sim_markov\<close>: it adds \<open>pi[ind, oldind]\<close> and
  moves \<open>ind\<close> on. Nothing bounds \<open>ind\<close> but the array itself, whose read raises
  IndexError past the last row.
\<close>

function sim_while :: "real list list \<Rightarrow> nat \<Rightarrow> real \<Rightarrow> real \<Rightarrow> nat \<Rightarrow> error + nat" where
  "sim_while pi' oldind ui sum_p ind =
     (if sum_p < ui then
        (case getitem2 pi' ind oldind of
           Inl err \<Rightarrow> Inl err
         | Inr p \<Rightarrow> sim_while pi' oldind ui (sum_p + p) (ind + 1))
      else Inr ind)"
  by pat_completeness auto
termination
  by (relation "measure (\<lambda>(pi', oldind, ui, sum_p, ind). length pi' - ind)")
     (auto simp: getitem2_def split: if_splits)

declare sim_while.simps [simp del]

text \<open>One pass of the \<open>for\<close> body up to the new index: the loop, then \<open>if ind > 0: ind -= 1\<close>.\<close>

definition next_index :: "real list list \<Rightarrow> nat \<Rightarrow> real \<Rightarrow> error + nat" where
  "next_index pi' oldind ui =
     (case sim_while pi' oldind ui 0 0 of
        Inl err \<Rightarrow> Inl err
      | Inr ind \<Rightarrow> Inr (if ind > 0 then ind - 1 else ind))"

text \<open>
  \<open>for i in range(1, num_draws)\<close>, over the list of the values of \<open>i\<close>; \<open>u\<close> is the
  vector of uniform draws, \<open>u i\<close> its entry \<open>i\<close>. The result is the part of
  \<open>z_discrete\<close> these passes fill.
\<close>

fun sim_for ::
  "real list \<Rightarrow> real list list \<Rightarrow> (nat \<Rightarrow> real) \<Rightarrow> nat \<Rightarrow> nat list \<Rightarrow> error + real list" where
  "sim_for z_grid pi' u oldind [] = Inr []"
| "sim_for z_grid pi' u oldind (i # idxs) =
     (case next_index pi' oldind (u i) of
        Inl err \<Rightarrow> Inl err
      | Inr ind \<Rightarrow>
          (case getitem z_grid ind of
             Inl err \<Rightarrow> Inl err
           | Inr zi \<Rightarrow>
               (case sim_for z_grid pi' u ind idxs of
                  Inl err \<Rightarrow> Inl err
                | Inr zs \<Rightarrow> Inr (zi # zs))))"

text \<open>
  \<open>sim_markov(z_grid, pi, num_draws)\<close>, with the draws \<open>u\<close> of
  \<open>np.random.uniform(size=num_draws)\<close> as an argument. \<open>z_discrete[0] = z_grid[oldind]\<close>
  raises IndexError on an empty grid and on \<open>num_draws = 0\<close>.
\<close>

definition sim_markov ::
  "real list \<Rightarrow> real list list \<Rightarrow> nat \<Rightarrow> (nat \<Rightarrow> real) \<Rightarrow> error + real list" where
  "sim_markov z_grid pi' num_draws u =
     (let N = length z_grid;
          oldind = nat \<lceil>(real N - 1) / 2\<rceil>
      in case getitem z_grid oldind of
           Inl err \<Rightarrow> Inl err
         | Inr z0 \<Rightarrow>
             if num_draws = 0 then Inl IndexError
             else
               (case sim_for z_grid pi' u oldind [1..<num_draws] of
                  Inl err \<Rightarrow> Inl err
                | Inr zs \<Rightarrow> Inr (z0 # zs)))"

text \<open>
  The cumulative sum the loop forms: the first \<open>m\<close> entries of column \<open>oldind\<close> of the
  matrix argument.
\<close>

definition col_cum :: "real list list \<Rightarrow> nat \<Rightarrow> nat \<Rightarrow> real" where
  "col_cum pi' oldind m = (\<Sum>k<m. pi' ! k ! oldind)"

text \<open>
  The selection rule in the words of the specification, for comparison with
  \<open>next_index\<close>: the smallest index whose cumulative transition probability, summed
  along row \<open>oldind\<close> of the matrix argument, exceeds the draw.
\<close>

definition spec_next_index :: "real list list \<Rightarrow> nat \<Rightarrow> real \<Rightarrow> nat option" where
  "spec_next_index pi' oldind ui =
     find (\<lambda>j. ui < sum_list (take (Suc j) (pi' ! oldind))) [0..<length (pi' ! oldind)]"

text \<open>
  The transition matrix \<open>pi\<close> of the notebook comes from \<open>scipy.integrate.quad\<close> and
  \<open>norm.cdf\<close>; it enters the simulator as an argument and is not computed here.
\<close>

section \<open>Properties of the numpy primitives\<close>

lemma argmax_scan_inv:
  assumes "length pre = j" "b < j" "pre ! b = m" "\<forall>k<j. pre ! k \<le> m" "\<forall>k<b. pre ! k < m"
  shows "argmax_scan xs j b m < length (pre @ xs) \<and>
         (\<forall>k<length (pre @ xs). (pre @ xs) ! k \<le> (pre @ xs) ! argmax_scan xs j b m) \<and>
         (\<forall>k<argmax_scan xs j b m. (pre @ xs) ! k < (pre @ xs) ! argmax_scan xs j b m)"
  using assms
proof (induction xs arbitrary: pre j b m)
  case Nil
  then show ?case by simp
next
  case (Cons x xs)
  show ?case
  proof (cases "m < x")
    case True
    have "argmax_scan xs (Suc j) j x < length ((pre @ [x]) @ xs) \<and>
         (\<forall>k<length ((pre @ [x]) @ xs).
            ((pre @ [x]) @ xs) ! k \<le> ((pre @ [x]) @ xs) ! argmax_scan xs (Suc j) j x) \<and>
         (\<forall>k<argmax_scan xs (Suc j) j x.
            ((pre @ [x]) @ xs) ! k < ((pre @ [x]) @ xs) ! argmax_scan xs (Suc j) j x)"
      apply (rule Cons.IH)
      using Cons.prems True
      by (auto simp: nth_append less_Suc_eq intro: order.strict_trans1 less_imp_le)
    then show ?thesis using True by simp
  next
    case False
    have "argmax_scan xs (Suc j) b m < length ((pre @ [x]) @ xs) \<and>
         (\<forall>k<length ((pre @ [x]) @ xs).
            ((pre @ [x]) @ xs) ! k \<le> ((pre @ [x]) @ xs) ! argmax_scan xs (Suc j) b m) \<and>
         (\<forall>k<argmax_scan xs (Suc j) b m.
            ((pre @ [x]) @ xs) ! k < ((pre @ [x]) @ xs) ! argmax_scan xs (Suc j) b m)"
      apply (rule Cons.IH)
      using Cons.prems False by (auto simp: nth_append less_Suc_eq)
    then show ?thesis using False by simp
  qed
qed

lemma argmax_scan_first:
  assumes "row \<noteq> []"
  defines "r \<equiv> argmax_scan (tl row) 1 0 (hd row)"
  shows "r < length row" "\<forall>k<length row. row ! k \<le> row ! r" "\<forall>k<r. row ! k < row ! r"
proof -
  obtain x xs where row: "row = x # xs" using assms(1) by (cases row) auto
  have "argmax_scan xs 1 0 x < length ([x] @ xs) \<and>
         (\<forall>k<length ([x] @ xs). ([x] @ xs) ! k \<le> ([x] @ xs) ! argmax_scan xs 1 0 x) \<and>
         (\<forall>k<argmax_scan xs 1 0 x. ([x] @ xs) ! k < ([x] @ xs) ! argmax_scan xs 1 0 x)"
    by (rule argmax_scan_inv) auto
  then show "r < length row" "\<forall>k<length row. row ! k \<le> row ! r" "\<forall>k<r. row ! k < row ! r"
    unfolding r_def row by simp_all
qed

lemma fold_max_Max: "row \<noteq> [] \<Longrightarrow> fold max (tl row) (hd row) = Max (set row)"
  using Max.set_eq_fold[of "hd row" "tl row"] by simp

lemma Max_row_nth:
  assumes "row \<noteq> []" "r < length row" "\<forall>k<length row. row ! k \<le> (row ! r :: real)"
  shows "Max (set row) = row ! r"
proof (rule Max_eqI)
  show "finite (set row)" by simp
  show "\<And>y. y \<in> set row \<Longrightarrow> y \<le> row ! r" using assms(3) by (auto simp: in_set_conv_nth)
  show "row ! r \<in> set row" using assms(2) by simp
qed

lemma sup_dist_total:
  "length v = length tv \<Longrightarrow> 0 < length v \<Longrightarrow> \<exists>d. sup_dist v tv = Inr d"
  by (cases v; cases tv) (simp_all add: sup_dist_def np_max_def)

section \<open>Value function iteration: one pass of the loop\<close>

lemma VFI_step_Inr:
  assumes "VFI_step e betafirm sizek s = Inr s'"
  shows "0 < sizek"
    and "V s' = map (\<lambda>i. fold max (tl (map (\<lambda>j. e ! i ! j + betafirm * V s ! j) [0..<sizek]))
                              (hd (map (\<lambda>j. e ! i ! j + betafirm * V s ! j) [0..<sizek])))
                  [0..<sizek]"
    and "PF s' = Some (map (\<lambda>i. argmax_scan (tl (map (\<lambda>j. e ! i ! j + betafirm * V s ! j) [0..<sizek]))
                                  1 0 (hd (map (\<lambda>j. e ! i ! j + betafirm * V s ! j) [0..<sizek])))
                        [0..<sizek])"
    and "VFiter s' = VFiter s + 1"
    and "sup_dist (V s') (V s) = Inr (VFdist s')"
    and "Vstore s' = (Vstore s)[VFiter s := V s]"
    and "VFiter s < length (Vstore s)"
    and "sizek \<le> length (V s)"
  using assms
  by (auto simp: VFI_step_def and_then_def Let_def Vmat_fill_def max_axis1_def argmax_axis1_def
        comp_def split: sum.splits if_splits)

lemma VFI_step_total:
  assumes "0 < sizek" "e_shape e sizek" "length (V s) = sizek" "VFiter s < length (Vstore s)"
  shows "\<exists>s'. VFI_step e betafirm sizek s = Inr s' \<and> length (V s') = sizek \<and>
              length (Vstore s') = length (Vstore s)"
proof -
  let ?Vmat = "map (\<lambda>i. map (\<lambda>j. e ! i ! j + betafirm * V s ! j) [0..<sizek]) [0..<sizek]"
  let ?V' = "map (\<lambda>row. fold max (tl row) (hd row)) ?Vmat"
  obtain d where d: "sup_dist ?V' (V s) = Inr d"
    using sup_dist_total[of ?V' "V s"] assms(1,3) by auto
  show ?thesis
    using assms d
    by (simp add: VFI_step_def and_then_def Let_def Vmat_fill_def max_axis1_def argmax_axis1_def)
qed

lemma VFI_step_example:
  "VFI_step [[2, 1], [3, 0]] (1/2) 2
     \<lparr>V = [2, 4], PF = Some [1, 0], VFdist = 3, VFiter = 2, Vstore = [[0, 0], [0, 0], [0, 0]]\<rparr>
   = Inr \<lparr>V = [3, 4], PF = Some [0, 0], VFdist = 1, VFiter = 3,
          Vstore = [[0, 0], [0, 0], [2, 4]]\<rparr>"
  by (simp add: VFI_step_def and_then_def Let_def Vmat_fill_def e_shape_def max_axis1_def
        argmax_axis1_def np_max_def sup_dist_def upt_rec numeral_2_eq_2)

text \<open>
  Claim C1. In every pass of the value-function-iteration loop the candidate value for
  the pair \<open>(i, j)\<close> is \<open>e[i][j] + betafirm * V[j]\<close>; the new \<open>V[i]\<close> is the maximum of the
  candidates over \<open>j\<close> and \<open>PF[i]\<close> is the position of that maximum, the lowest one when
  several \<open>j\<close> attain it. A pass of the loop is \<open>VFI_step\<close>: where the loop test holds,
  the loop goes on from the state \<open>VFI_step\<close> returns.
\<close>

theorem C1_bellman_update:
  assumes "VFtol < VFdist s" and "VFiter s < VFmaxiter"
    and "VFI_step e betafirm sizek s = Inr s'"
  shows "VFI_loop e betafirm sizek VFtol VFmaxiter s =
           VFI_loop e betafirm sizek VFtol VFmaxiter s' \<and>
         (\<exists>pf. PF s' = Some pf \<and> length (V s') = sizek \<and> length pf = sizek \<and>
           (\<forall>i<sizek.
              V s' ! i = Max ((\<lambda>j. e ! i ! j + betafirm * V s ! j) ` {..<sizek}) \<and>
              pf ! i = (LEAST j. j < sizek \<and> e ! i ! j + betafirm * V s ! j = V s' ! i)))"
proof -
  note st = VFI_step_Inr[OF assms(3)]
  let ?row = "\<lambda>i. map (\<lambda>j. e ! i ! j + betafirm * V s ! j) [0..<sizek]"
  let ?pf = "map (\<lambda>i. argmax_scan (tl (?row i)) 1 0 (hd (?row i))) [0..<sizek]"
  have loop: "VFI_loop e betafirm sizek VFtol VFmaxiter s =
              VFI_loop e betafirm sizek VFtol VFmaxiter s'"
    by (subst VFI_loop.simps) (simp add: assms)
  have ne: "?row i \<noteq> []" for i using st(1) by simp
  have set_row: "set (?row i) = (\<lambda>j. e ! i ! j + betafirm * V s ! j) ` {..<sizek}" for i
    by (auto simp: lessThan_atLeast0)
  have "V s' ! i = Max ((\<lambda>j. e ! i ! j + betafirm * V s ! j) ` {..<sizek}) \<and>
        ?pf ! i = (LEAST j. j < sizek \<and> e ! i ! j + betafirm * V s ! j = V s' ! i)"
    if i: "i < sizek" for i
  proof -
    let ?r = "argmax_scan (tl (?row i)) 1 0 (hd (?row i))"
    have r1: "?r < sizek" using argmax_scan_first(1)[OF ne[of i]] by simp
    have r2: "\<forall>k<sizek. ?row i ! k \<le> ?row i ! ?r"
      using argmax_scan_first(2)[OF ne[of i]] by simp
    have r3: "\<forall>k< ?r. ?row i ! k < ?row i ! ?r"
      using argmax_scan_first(3)[OF ne[of i]] by simp
    have vi: "V s' ! i = Max (set (?row i))"
      using i by (simp add: st(2) fold_max_Max[OF ne] del: set_map set_upt)
    have mx: "Max (set (?row i)) = ?row i ! ?r"
      by (rule Max_row_nth[OF ne]) (use r1 r2 in simp_all)
    have vr: "V s' ! i = e ! i ! ?r + betafirm * V s ! ?r"
      using vi mx r1 by simp
    have least: "(LEAST j. j < sizek \<and> e ! i ! j + betafirm * V s ! j = V s' ! i) = ?r"
    proof (rule Least_equality)
      show "?r < sizek \<and> e ! i ! ?r + betafirm * V s ! ?r = V s' ! i" using r1 vr by simp
    next
      fix y assume y: "y < sizek \<and> e ! i ! y + betafirm * V s ! y = V s' ! i"
      show "?r \<le> y"
      proof (rule ccontr)
        assume "\<not> ?r \<le> y"
        then have "y < ?r" by simp
        with r3 have "?row i ! y < ?row i ! ?r" by blast
        then show False using y r1 vr by simp
      qed
    qed
    show ?thesis using vi set_row[of i] least i by simp
  qed
  then show ?thesis using st(2,3) loop by simp
qed

theorem C1_bellman_update_witness:
  "(1/1000000 :: real) <
     VFdist \<lparr>V = [2, 4], PF = Some [1, 0], VFdist = 3, VFiter = 2,
             Vstore = [[0, 0], [0, 0], [0, 0]]\<rparr> \<and>
   VFiter \<lparr>V = [2, 4], PF = Some [1, 0], VFdist = 3, VFiter = 2,
           Vstore = [[0, 0], [0, 0], [0, 0]]\<rparr> < 3 \<and>
   VFI_step [[2, 1], [3, 0]] (1/2) 2
     \<lparr>V = [2, 4], PF = Some [1, 0], VFdist = 3, VFiter = 2, Vstore = [[0, 0], [0, 0], [0, 0]]\<rparr>
   = Inr \<lparr>V = [3, 4], PF = Some [0, 0], VFdist = 1, VFiter = 3,
          Vstore = [[0, 0], [0, 0], [2, 4]]\<rparr> \<and>
   (\<exists>pf. PF \<lparr>V = [3, 4], PF = Some [0, 0], VFdist = 1, VFiter = 3,
              Vstore = [[0, 0], [0, 0], [2, 4]]\<rparr> = Some pf \<and>
      (\<forall>i<2.
         [3, 4 :: real] ! i =
           Max ((\<lambda>j. [[2, 1], [3, 0 :: real]] ! i ! j + 1/2 * [2, 4 :: real] ! j) ` {..<2}) \<and>
         pf ! i = (LEAST j. j < 2 \<and>
                     [[2, 1], [3, 0 :: real]] ! i ! j + 1/2 * [2, 4 :: real] ! j
                       = [3, 4 :: real] ! i)))"
proof -
  let ?s = "\<lparr>V = [2, 4], PF = Some [1, 0], VFdist = 3, VFiter = 2,
             Vstore = [[0, 0], [0, 0], [0, 0]]\<rparr>"
  have h1: "(1/1000000 :: real) < VFdist ?s" by simp
  have h2: "VFiter ?s < 3" by simp
  show ?thesis
    using h1 h2 VFI_step_example C1_bellman_update[OF h1 h2 VFI_step_example]
    by simp
qed

section \<open>Value function iteration: the loop\<close>

lemma VFI_loop_char:
  "VFI_loop e betafirm sizek VFtol VFmaxiter s0 = Inr s \<Longrightarrow>
   \<exists>n. VFI_run e betafirm sizek s0 n = Inr s \<and> VFiter s = VFiter s0 + n \<and>
       (VFdist s \<le> VFtol \<or> VFmaxiter \<le> VFiter s) \<and>
       (\<forall>k<n. \<exists>sk. VFI_run e betafirm sizek s0 k = Inr sk \<and> VFtol < VFdist sk \<and>
                    VFiter sk < VFmaxiter)"
proof (induction e betafirm sizek VFtol VFmaxiter s0 rule: VFI_loop.induct)
  case (1 e betafirm sizek VFtol VFmaxiter s0)
  show ?case
  proof (cases "VFtol < VFdist s0 \<and> VFiter s0 < VFmaxiter")
    case False
    then have "s = s0" using "1.prems" by (subst (asm) VFI_loop.simps) auto
    then have "VFI_run e betafirm sizek s0 0 = Inr s \<and> VFiter s = VFiter s0 + 0 \<and>
       (VFdist s \<le> VFtol \<or> VFmaxiter \<le> VFiter s) \<and>
       (\<forall>k<0. \<exists>sk. VFI_run e betafirm sizek s0 k = Inr sk \<and> VFtol < VFdist sk \<and>
                    VFiter sk < VFmaxiter)"
      using False by auto
    then show ?thesis by blast
  next
    case True
    then obtain s1 where s1: "VFI_step e betafirm sizek s0 = Inr s1"
      and l1: "VFI_loop e betafirm sizek VFtol VFmaxiter s1 = Inr s"
      using "1.prems" by (subst (asm) VFI_loop.simps) (auto split: sum.splits)
    from "1.IH"[OF True s1 l1] obtain n where
      n: "VFI_run e betafirm sizek s1 n = Inr s" "VFiter s = VFiter s1 + n"
         "VFdist s \<le> VFtol \<or> VFmaxiter \<le> VFiter s"
         "\<forall>k<n. \<exists>sk. VFI_run e betafirm sizek s1 k = Inr sk \<and> VFtol < VFdist sk \<and>
                      VFiter sk < VFmaxiter"
      by blast
    have it: "VFiter s1 = VFiter s0 + 1" using VFI_step_Inr(4)[OF s1] .
    have run: "VFI_run e betafirm sizek s0 (Suc k) = VFI_run e betafirm sizek s1 k" for k
      by (simp add: s1 and_then_def)
    have "\<exists>sk. VFI_run e betafirm sizek s0 k = Inr sk \<and> VFtol < VFdist sk \<and>
               VFiter sk < VFmaxiter"
      if "k < Suc n" for k
    proof (cases k)
      case 0
      then show ?thesis using True by simp
    next
      case (Suc k')
      then show ?thesis using that n(4) run by auto
    qed
    then have "VFI_run e betafirm sizek s0 (Suc n) = Inr s \<and> VFiter s = VFiter s0 + Suc n \<and>
       (VFdist s \<le> VFtol \<or> VFmaxiter \<le> VFiter s) \<and>
       (\<forall>k<Suc n. \<exists>sk. VFI_run e betafirm sizek s0 k = Inr sk \<and> VFtol < VFdist sk \<and>
                        VFiter sk < VFmaxiter)"
      using n(1,2,3) it run by simp
    then show ?thesis by blast
  qed
qed

lemma VFI_loop_total:
  "0 < sizek \<Longrightarrow> e_shape e sizek \<Longrightarrow>
   length (V s0) = sizek \<Longrightarrow> length (Vstore s0) = VFmaxiter \<Longrightarrow>
   \<exists>s. VFI_loop e betafirm sizek VFtol VFmaxiter s0 = Inr s"
proof (induction e betafirm sizek VFtol VFmaxiter s0 rule: VFI_loop.induct)
  case (1 e betafirm sizek VFtol VFmaxiter s0)
  show ?case
  proof (cases "VFtol < VFdist s0 \<and> VFiter s0 < VFmaxiter")
    case False
    then show ?thesis by (subst VFI_loop.simps) auto
  next
    case True
    from VFI_step_total[OF "1.prems"(1,2) "1.prems"(3), of betafirm] True "1.prems"(4)
    obtain s1 where s1: "VFI_step e betafirm sizek s0 = Inr s1" "length (V s1) = sizek"
      "length (Vstore s1) = VFmaxiter" by auto
    from "1.IH"[OF True s1(1) "1.prems"(1,2) s1(2,3)]
    obtain s where "VFI_loop e betafirm sizek VFtol VFmaxiter s1 = Inr s" by blast
    then show ?thesis using True s1(1) by (subst VFI_loop.simps) auto
  qed
qed

lemma VFI_run_VFiter:
  "VFI_run e betafirm sizek s0 k = Inr sk \<Longrightarrow> VFiter sk = VFiter s0 + k"
proof (induction k arbitrary: s0)
  case 0
  then show ?case by simp
next
  case (Suc k)
  then obtain s1 where s1: "VFI_step e betafirm sizek s0 = Inr s1"
    and r: "VFI_run e betafirm sizek s1 k = Inr sk"
    by (auto simp: and_then_def split: sum.splits)
  show ?case using Suc.IH[OF r] VFI_step_Inr(4)[OF s1] by simp
qed

lemma VFI_run_Suc_end:
  "VFI_run e betafirm sizek s0 (Suc k) =
     and_then (VFI_run e betafirm sizek s0 k) (VFI_step e betafirm sizek)"
proof (induction k arbitrary: s0)
  case 0
  then show ?case by (simp add: and_then_def split: sum.splits)
next
  case (Suc k)
  have "VFI_run e betafirm sizek s0 (Suc (Suc k)) =
        and_then (VFI_step e betafirm sizek s0) (\<lambda>s'. VFI_run e betafirm sizek s' (Suc k))"
    by simp
  also have "\<dots> = and_then (VFI_step e betafirm sizek s0)
        (\<lambda>s'. and_then (VFI_run e betafirm sizek s' k) (VFI_step e betafirm sizek))"
    by (simp only: Suc.IH)
  also have "\<dots> = and_then (VFI_run e betafirm sizek s0 (Suc k)) (VFI_step e betafirm sizek)"
    by (simp add: and_then_def split: sum.splits)
  finally show ?case .
qed

lemma VFI_example_three:
  "VFI [[1]] (1/2) 1 (1/1000000) 3 =
     Inr \<lparr>V = [3/2], PF = Some [0], VFdist = 1/2, VFiter = 3, Vstore = [[0], [0], [1]]\<rparr>"
  by (simp add: VFI_def VFI_init_def VFI_loop.simps VFI_step_def and_then_def Let_def
        Vmat_fill_def e_shape_def max_axis1_def argmax_axis1_def np_max_def sup_dist_def
        np_zeros_def numeral_3_eq_3)

lemma VFI_run_example_three:
  "VFI_run [[1]] (1/2) 1 (VFI_init 1 3) 2 =
     Inr \<lparr>V = [3/2], PF = Some [0], VFdist = 1/2, VFiter = 3, Vstore = [[0], [0], [1]]\<rparr>"
  by (simp add: VFI_init_def VFI_step_def and_then_def Let_def Vmat_fill_def e_shape_def
        max_axis1_def argmax_axis1_def np_max_def sup_dist_def np_zeros_def numeral_3_eq_3
        numeral_2_eq_2)

text \<open>
  Claim C3, as amended. The loop goes on exactly while \<open>VFdist > VFtol\<close> and
  \<open>VFiter < VFmaxiter\<close>, where \<open>VFiter\<close> starts at 1 and is one more than the number of
  Bellman updates done, and \<open>VFdist\<close> starts at 7 and is, after an update, the sup-norm
  distance between the new and the previous value function. For a payoff matrix of the
  right shape on a non-empty grid the loop returns after \<open>n\<close> updates, where \<open>n\<close> is the
  first count with \<open>VFdist \<le> VFtol\<close> or \<open>n + 1 \<ge> VFmaxiter\<close>: at most
  \<open>VFmaxiter - 1\<close> updates are done.
\<close>

theorem C3_loop_stops:
  assumes "0 < sizek" and "e_shape e sizek"
  shows "\<exists>s n. VFI e betafirm sizek VFtol VFmaxiter = Inr s \<and>
           VFI_run e betafirm sizek (VFI_init sizek VFmaxiter) n = Inr s \<and>
           VFiter s = n + 1 \<and> n \<le> VFmaxiter - 1 \<and>
           (VFdist s \<le> VFtol \<or> VFmaxiter \<le> n + 1) \<and>
           (\<forall>k<n. \<exists>sk sk'.
              VFI_run e betafirm sizek (VFI_init sizek VFmaxiter) k = Inr sk \<and>
              VFtol < VFdist sk \<and> k + 1 < VFmaxiter \<and>
              VFI_run e betafirm sizek (VFI_init sizek VFmaxiter) (k + 1) = Inr sk' \<and>
              sup_dist (V sk') (V sk) = Inr (VFdist sk'))"
proof -
  let ?s0 = "VFI_init sizek VFmaxiter"
  have "\<exists>s. VFI_loop e betafirm sizek VFtol VFmaxiter ?s0 = Inr s"
    by (rule VFI_loop_total[OF assms]) (simp_all add: VFI_init_def np_zeros_def)
  then obtain s where s: "VFI e betafirm sizek VFtol VFmaxiter = Inr s"
    by (auto simp: VFI_def)
  from VFI_loop_char[OF s[unfolded VFI_def]] obtain n where
    n: "VFI_run e betafirm sizek ?s0 n = Inr s" "VFiter s = VFiter ?s0 + n"
       "VFdist s \<le> VFtol \<or> VFmaxiter \<le> VFiter s"
       "\<forall>k<n. \<exists>sk. VFI_run e betafirm sizek ?s0 k = Inr sk \<and> VFtol < VFdist sk \<and>
                    VFiter sk < VFmaxiter"
    by blast
  have it0: "VFiter ?s0 = 1" by (simp add: VFI_init_def)
  have mid: "\<exists>sk sk'. VFI_run e betafirm sizek ?s0 k = Inr sk \<and>
              VFtol < VFdist sk \<and> k + 1 < VFmaxiter \<and>
              VFI_run e betafirm sizek ?s0 (k + 1) = Inr sk' \<and>
              sup_dist (V sk') (V sk) = Inr (VFdist sk')" if k: "k < n" for k
  proof -
    from n(4) k obtain sk where sk: "VFI_run e betafirm sizek ?s0 k = Inr sk"
      "VFtol < VFdist sk" "VFiter sk < VFmaxiter" by blast
    have "\<exists>sk'. VFI_run e betafirm sizek ?s0 (Suc k) = Inr sk'"
    proof (cases "Suc k < n")
      case True
      then show ?thesis using n(4) by blast
    next
      case False
      then have "Suc k = n" using k by simp
      then show ?thesis using n(1) by blast
    qed
    then obtain sk' where sk': "VFI_run e betafirm sizek ?s0 (Suc k) = Inr sk'" by blast
    then have st: "VFI_step e betafirm sizek sk = Inr sk'"
      using sk(1) by (simp add: VFI_run_Suc_end and_then_def del: VFI_run.simps)
    have "VFiter sk = k + 1" using VFI_run_VFiter[OF sk(1)] it0 by simp
    then show ?thesis using sk sk' VFI_step_Inr(5)[OF st] by auto
  qed
  have le: "n \<le> VFmaxiter - 1"
  proof (cases n)
    case 0
    then show ?thesis by simp
  next
    case (Suc m)
    then have "m < n" by simp
    from mid[OF this] have "m + 1 < VFmaxiter" by blast
    then show ?thesis using Suc by simp
  qed
  show ?thesis using s n(1,2,3) it0 mid le by auto
qed

theorem C3_loop_stops_witness:
  "(0::nat) < 1 \<and> e_shape [[1]] 1 \<and>
   (\<exists>s n. VFI [[1]] (1/2) 1 (1/1000000) 3 = Inr s \<and>
           VFI_run [[1]] (1/2) 1 (VFI_init 1 3) n = Inr s \<and>
           VFiter s = n + 1 \<and> n \<le> 3 - 1 \<and>
           (VFdist s \<le> 1/1000000 \<or> 3 \<le> n + 1) \<and>
           (\<forall>k<n. \<exists>sk sk'.
              VFI_run [[1]] (1/2) 1 (VFI_init 1 3) k = Inr sk \<and>
              1/1000000 < VFdist sk \<and> k + 1 < 3 \<and>
              VFI_run [[1]] (1/2) 1 (VFI_init 1 3) (k + 1) = Inr sk' \<and>
              sup_dist (V sk') (V sk) = Inr (VFdist sk')))"
proof -
  have h1: "(0::nat) < 1" by simp
  have h2: "e_shape [[1]] 1" by (simp add: e_shape_def)
  show ?thesis
    using h1 h2 C3_loop_stops[OF h1 h2, of "1/2" "1/1000000" 3] by simp
qed

text \<open>
  Claim C3 as stated fails: with \<open>maxIter = 3\<close> on the one-point grid with payoff 1 and
  discount 1/2 the loop returns after two Bellman updates, with distance 1/2 above the
  tolerance; by the wording of the claim it would go on to a third update.
\<close>

theorem C3_counterexample:
  "VFI [[1]] (1/2) 1 (1/1000000) 3 =
     Inr \<lparr>V = [3/2], PF = Some [0], VFdist = 1/2, VFiter = 3, Vstore = [[0], [0], [1]]\<rparr> \<and>
   VFI_run [[1]] (1/2) 1 (VFI_init 1 3) 2 =
     Inr \<lparr>V = [3/2], PF = Some [0], VFdist = 1/2, VFiter = 3, Vstore = [[0], [0], [1]]\<rparr> \<and>
   \<not> spec_loop_over (1/1000000) 3
       \<lparr>V = [3/2], PF = Some [0], VFdist = 1/2, VFiter = 3, Vstore = [[0], [0], [1]]\<rparr> 2"
  using VFI_example_three VFI_run_example_three by (simp add: spec_loop_over_def)

text \<open>
  Claim C8 (the report says "converged" whenever the distance reaches the tolerance
  within the cap), evaluated on the code: on the one-point grid with payoff 0 and
  \<open>VFmaxiter = 2\<close> the single update gives distance 0, below the tolerance, and the
  report \<open>VFiter < VFmaxiter\<close> is false.
\<close>

theorem C8_report_at_cap:
  "VFI [[0]] (1/2) 1 (1/1000000) 2 =
     Inr \<lparr>V = [0], PF = Some [0], VFdist = 0, VFiter = 2, Vstore = [[0], [0]]\<rparr> \<and>
   VFdist \<lparr>V = [0], PF = Some [0], VFdist = 0, VFiter = 2, Vstore = [[0], [0]]\<rparr>
     \<le> (1/1000000 :: real) \<and>
   \<not> converged 2 \<lparr>V = [0], PF = Some [0], VFdist = 0, VFiter = 2, Vstore = [[0], [0]]\<rparr>"
  by (simp add: VFI_def VFI_init_def VFI_loop.simps VFI_step_def and_then_def Let_def
        Vmat_fill_def e_shape_def max_axis1_def argmax_axis1_def np_max_def sup_dist_def
        np_zeros_def numeral_2_eq_2 converged_def)

text \<open>
  Claim C9 (with \<open>maxIter = 0\<close> the solver returns not converged, the zero vector and
  still a policy), evaluated on the code: the loop body never runs, the value function
  is the vector of zeros and the report is "did not converge", but \<open>PF\<close> was never
  bound and \<open>optK = kvec[PF]\<close> raises NameError.
\<close>

theorem C9_maxiter_zero:
  "VFI e betafirm sizek VFtol 0 = Inr (VFI_init sizek 0) \<and>
   V (VFI_init sizek 0) = np_zeros sizek \<and>
   \<not> converged 0 (VFI_init sizek 0) \<and>
   PF (VFI_init sizek 0) = None \<and>
   optK kvec (VFI_init sizek 0) = Inl NameError"
  by (simp add: VFI_def VFI_loop.simps VFI_init_def converged_def optK_def)

section \<open>Capital grid and payoff matrix\<close>

lemma kstar_value:
  assumes "0 < delta" "0 < betafirm" "betafirm < 1" "0 < alpha_k" "0 < alpha_l"
    "alpha_k + alpha_l < 1" "0 < w"
  shows "kstar betafirm delta w alpha_l alpha_k 1 =
           Inr (((1 / betafirm - 1 + delta) * (w / alpha_l) powr (alpha_l / (1 - alpha_l)) / alpha_k)
                 powr ((1 - alpha_l) / (alpha_k + alpha_l - 1)))"
proof -
  have "1 < 1 / betafirm" using assms(2,3) by simp
  then have R: "0 < 1 / betafirm - 1 + delta" using assms(1) by linarith
  have wl: "0 < w / alpha_l" using assms by simp
  have base: "0 < (1 / betafirm - 1 + delta) * (w / alpha_l) powr (alpha_l / (1 - alpha_l)) / alpha_k"
    by (intro divide_pos_pos mult_pos_pos) (use R assms(4,5,7) in simp_all)
  have ne: "betafirm \<noteq> 0" "alpha_l \<noteq> 0" "1 - alpha_l \<noteq> 0" "alpha_k \<noteq> 0"
    "alpha_k + alpha_l - 1 \<noteq> 0"
    using assms by simp_all
  show ?thesis
    unfolding kstar_def and_then_def py_div_def py_pow_def
    using ne wl base by simp
qed

lemma kstar_formula:
  fixes betafirm delta w alpha_l alpha_k :: real
  assumes "0 < delta" "0 < betafirm" "betafirm < 1" "0 < alpha_k" "0 < alpha_l"
    "alpha_k + alpha_l < 1" "0 < w"
  shows "((1 / betafirm - 1 + delta) * (w / alpha_l) powr (alpha_l / (1 - alpha_l)) / alpha_k)
                 powr ((1 - alpha_l) / (alpha_k + alpha_l - 1)) =
         ((alpha_k / (1 / betafirm - 1 + delta)) powr (1 - alpha_l) * (alpha_l / w) powr alpha_l)
                 powr (1 / (1 - alpha_k - alpha_l))"
    (is "?lhs = ?rhs")
proof -
  define R where "R = 1 / betafirm - 1 + delta"
  have "1 < 1 / betafirm" using assms(2,3) by simp
  then have R: "0 < R" using assms(1) unfolding R_def by linarith
  have D: "alpha_k + alpha_l - 1 \<noteq> 0" "1 - alpha_l \<noteq> 0" "1 - alpha_k - alpha_l \<noteq> 0"
    using assms by auto
  have pos: "0 < ?lhs" "0 < ?rhs" using R assms unfolding R_def[symmetric] by auto
  have l: "ln ?lhs = (1 - alpha_l) / (alpha_k + alpha_l - 1) *
            (ln R + alpha_l / (1 - alpha_l) * (ln w - ln alpha_l) - ln alpha_k)"
    using R assms unfolding R_def[symmetric]
    by (simp add: ln_divide_pos ln_mult_pos)
  have r: "ln ?rhs = 1 / (1 - alpha_k - alpha_l) *
            ((1 - alpha_l) * (ln alpha_k - ln R) + alpha_l * (ln alpha_l - ln w))"
    using R assms unfolding R_def[symmetric]
    by (simp add: ln_divide_pos ln_mult_pos)
  have e1: "(1 - alpha_l) * (alpha_l / (1 - alpha_l) * (ln w - ln alpha_l)) =
            alpha_l * (ln w - ln alpha_l)"
  proof -
    have "c * (b / c * x) = b * x" if "c \<noteq> 0" for b c x :: real
      using that by simp
    from this[OF D(2)] show ?thesis .
  qed
  have e2: "(1 - alpha_l) * (ln R + alpha_l / (1 - alpha_l) * (ln w - ln alpha_l) - ln alpha_k) =
            - ((1 - alpha_l) * (ln alpha_k - ln R) + alpha_l * (ln alpha_l - ln w))"
  proof -
    have "c * (B + Y - A) = c * B + c * Y - c * A" for c B Y A :: real
      by (simp add: algebra_simps)
    then have "(1 - alpha_l) * (ln R + alpha_l / (1 - alpha_l) * (ln w - ln alpha_l) - ln alpha_k) =
         (1 - alpha_l) * ln R + alpha_l * (ln w - ln alpha_l) - (1 - alpha_l) * ln alpha_k"
      by (simp only: e1)
    also have "\<dots> = - ((1 - alpha_l) * (ln alpha_k - ln R) + alpha_l * (ln alpha_l - ln w))"
      by (simp add: algebra_simps)
    finally show ?thesis .
  qed
  have e3: "alpha_k + alpha_l - 1 = - (1 - alpha_k - alpha_l)" by simp
  have "ln ?lhs = ((1 - alpha_l) *
            (ln R + alpha_l / (1 - alpha_l) * (ln w - ln alpha_l) - ln alpha_k)) /
            (alpha_k + alpha_l - 1)"
    unfolding l by simp
  also have "\<dots> = ((1 - alpha_l) * (ln alpha_k - ln R) + alpha_l * (ln alpha_l - ln w)) /
            (1 - alpha_k - alpha_l)"
    by (simp only: e2 e3 minus_divide_divide)
  also have "\<dots> = ln ?rhs" unfolding r by simp
  finally have eq: "ln ?lhs = ln ?rhs" .
  show ?thesis by (rule iffD1[OF ln_inj_iff[OF pos] eq])
qed

lemma capital_grid_value:
  assumes "0 < delta" "delta < 1" "0 < lb_k" "lb_k \<le> ub_k"
  shows "capital_grid delta dens lb_k ub_k =
           Inr (rev (map (\<lambda>j. ub_k * (1 - delta) powr (real j / real dens))
                      [0..<nat \<lceil>ln (lb_k / ub_k) / ln (1 - delta)\<rceil> * dens]))"
proof -
  have ub: "0 < ub_k" using assms by simp
  have q: "0 < lb_k / ub_k" "lb_k / ub_k \<le> 1" using assms ub by simp_all
  have l1: "ln (1 - delta) < 0" using assms by simp
  have l2: "ln (lb_k / ub_k) \<le> 0" using q by simp
  have "0 \<le> ln (lb_k / ub_k) / ln (1 - delta)"
    using l1 l2 by (simp add: divide_nonpos_neg)
  then have c: "0 \<le> \<lceil>ln (lb_k / ub_k) / ln (1 - delta)\<rceil>" by simp
  then have n: "0 \<le> \<lceil>ln (lb_k / ub_k) / ln (1 - delta)\<rceil> * int dens" by simp
  have "nat (\<lceil>ln (lb_k / ub_k) / ln (1 - delta)\<rceil> * int dens) =
        nat \<lceil>ln (lb_k / ub_k) / ln (1 - delta)\<rceil> * dens"
    using c by (simp add: nat_mult_distrib)
  moreover have "ub_k \<noteq> 0" "\<not> lb_k / ub_k \<le> 0" "\<not> 1 - delta \<le> 0" "ln (1 - delta) \<noteq> 0"
    "\<not> \<lceil>ln (lb_k / ub_k) / ln (1 - delta)\<rceil> * int dens < 0"
    using ub q(1) l1 n assms(2) by simp_all
  ultimately show ?thesis
    by (simp add: capital_grid_def and_then_def py_div_def Let_def)
qed

lemma geometric_grid_sorted:
  assumes "0 < delta" "delta < 1" "0 < ub_k" "0 < dens"
  shows "sorted_wrt (<) (rev (map (\<lambda>j. ub_k * (1 - delta) powr (real j / real dens)) [0..<n]))"
proof -
  let ?f = "\<lambda>j. ub_k * (1 - delta) powr (real j / real dens)"
  have dec: "?f j < ?f i" if "i < j" for i j :: nat
  proof -
    have "real i / real dens < real j / real dens"
      using that assms(4) by (simp add: divide_strict_right_mono)
    moreover have "0 < 1 - delta" "1 - delta < 1" using assms(1,2) by simp_all
    ultimately have "(1 - delta) powr (real j / real dens) < (1 - delta) powr (real i / real dens)"
      by (rule powr_less_mono'[rotated 2])
    then show ?thesis using assms(3) by (rule mult_strict_left_mono)
  qed
  have "sorted_wrt (\<lambda>i j. ?f j < ?f i) [0..<n]"
  proof (rule sorted_wrt_mono_rel[OF _ sorted_wrt_upt])
    fix x y :: nat
    assume "x < y"
    then show "?f y < ?f x" by (rule dec)
  qed
  then show ?thesis
    by (simp only: sorted_wrt_rev sorted_wrt_map)
qed

lemma kstar_example:
  "((1/4 / (1 / (1/2) - 1 + 1/2)) powr (1 - 1/2) * (1/2 / 1) powr (1/2)) powr (1 / (1 - 1/4 - 1/2))
     = (1/144 :: real)"
proof -
  have "((1/6) powr (1/2) * (1/2) powr (1/2)) powr 4 = (((1/6) * (1/2)) powr (1/2)) powr (4::real)"
    by (simp only: powr_mult)
  also have "\<dots> = (1/12) powr (2::real)" by (simp add: powr_powr)
  also have "\<dots> = (1/144::real)" by (simp add: power2_eq_square)
  finally have "((1/6) powr (1/2) * (1/2) powr (1/2)) powr 4 = (1/144::real)" .
  then show ?thesis by simp
qed

lemma grid_size_example:
  "nat \<lceil>ln ((1/1000) / (2 * (1/144))) / ln (1 - 1/2 :: real)\<rceil> * 1 = 4"
proof -
  have l2: "ln (1/2 :: real) < 0" by simp
  have a: "ln ((1/2) ^ 4 :: real) \<le> ln (9/125)"
    by (subst ln_le_cancel_iff) (simp_all add: power_divide)
  have b: "ln (9/125 :: real) < ln ((1/2) ^ 3)"
    by (subst ln_less_cancel_iff) (simp_all add: power_divide)
  have a': "4 * ln (1/2 :: real) \<le> ln (9/125)"
    using a by (simp only: ln_realpow of_nat_numeral)
  have b': "ln (9/125 :: real) < 3 * ln (1/2)"
    using b by (simp only: ln_realpow of_nat_numeral)
  have u: "ln (9/125 :: real) / ln (1/2) \<le> 4"
    using a' l2 by (simp add: divide_le_eq)
  have l: "3 < ln (9/125 :: real) / ln (1/2)"
    using b' l2 by (simp add: less_divide_eq)
  have "\<lceil>ln (9/125 :: real) / ln (1/2)\<rceil> = 4"
    using u l by (intro ceiling_unique) simp_all
  then show ?thesis by simp
qed

text \<open>
  Claim C7. For parameters with \<open>delta\<close> and \<open>betafirm\<close> in \<open>(0, 1)\<close>, positive shares
  \<open>alpha_k\<close> and \<open>alpha_l\<close> with \<open>alpha_k + alpha_l < 1\<close>, \<open>w > 0\<close>, \<open>dens \<ge> 1\<close> and a
  positive lower bound not above the upper bound, the notebook's \<open>kstar\<close> is the
  frictionless steady-state capital
  \<open>[(alpha_k / (1/betafirm - 1 + delta))^(1 - alpha_l) * (alpha_l / w)^alpha_l]^(1 / (1 - alpha_k - alpha_l))\<close>,
  and the grid builder returns the vector whose \<open>i\<close>-th element from the top is
  \<open>2 * kstar * (1 - delta)^(i / dens)\<close>; every grid point is positive and the vector is
  strictly increasing.
\<close>

theorem C7_capital_grid:
  assumes "0 < delta" "delta < 1" "0 < betafirm" "betafirm < 1"
    and "0 < alpha_k" "0 < alpha_l" "alpha_k + alpha_l < 1" "0 < w" "1 \<le> dens"
    and "0 < lb_k"
    and "lb_k \<le> 2 * ((alpha_k / (1 / betafirm - 1 + delta)) powr (1 - alpha_l) *
                        (alpha_l / w) powr alpha_l) powr (1 / (1 - alpha_k - alpha_l))"
  shows "\<exists>ks kvec.
           kstar betafirm delta w alpha_l alpha_k 1 = Inr ks \<and>
           ks = ((alpha_k / (1 / betafirm - 1 + delta)) powr (1 - alpha_l) *
                   (alpha_l / w) powr alpha_l) powr (1 / (1 - alpha_k - alpha_l)) \<and>
           kvec_build betafirm delta w alpha_l alpha_k 1 dens lb_k = Inr kvec \<and>
           length kvec = nat \<lceil>ln (lb_k / (2 * ks)) / ln (1 - delta)\<rceil> * dens \<and>
           (\<forall>i<length kvec.
              kvec ! (length kvec - 1 - i) = 2 * ks * (1 - delta) powr (real i / real dens)) \<and>
           (\<forall>k\<in>set kvec. 0 < k) \<and>
           sorted_wrt (<) kvec"
proof -
  let ?ks = "((alpha_k / (1 / betafirm - 1 + delta)) powr (1 - alpha_l) *
                   (alpha_l / w) powr alpha_l) powr (1 / (1 - alpha_k - alpha_l))"
  let ?n = "nat \<lceil>ln (lb_k / (2 * ?ks)) / ln (1 - delta)\<rceil> * dens"
  let ?K = "map (\<lambda>j. 2 * ?ks * (1 - delta) powr (real j / real dens)) [0..<?n]"
  have ks: "kstar betafirm delta w alpha_l alpha_k 1 = Inr ?ks"
    using kstar_value[OF assms(1,3,4,5,6,7,8)] kstar_formula[OF assms(1,3,4,5,6,7,8)] by simp
  have ub: "0 < 2 * ?ks" using assms(10,11) by linarith
  have grid: "capital_grid delta dens lb_k (2 * ?ks) = Inr (rev ?K)"
    by (rule capital_grid_value[OF assms(1,2,10,11)])
  have kv: "kvec_build betafirm delta w alpha_l alpha_k 1 dens lb_k = Inr (rev ?K)"
    by (simp only: kvec_build_def ks and_then_def sum.case grid)
  have nth: "rev ?K ! (length (rev ?K) - 1 - i) = 2 * ?ks * (1 - delta) powr (real i / real dens)"
    if "i < length (rev ?K)" for i
    using that by (simp add: rev_nth)
  have pos: "\<forall>k\<in>set (rev ?K). 0 < k"
    using ub assms(1,2) by auto
  have srt: "sorted_wrt (<) (rev ?K)"
    by (rule geometric_grid_sorted[OF assms(1,2) ub]) (use assms(9) in simp)
  have len: "length (rev ?K) = ?n" by simp
  show ?thesis
    using ks kv nth pos srt len by blast
qed

theorem C7_capital_grid_witness:
  "(0::real) < 1/2 \<and> (1/2::real) < 1 \<and> (0::real) < 1/4 \<and> (1/4 + 1/2 :: real) < 1 \<and>
   (0::real) < 1 \<and> (1::nat) \<le> 1 \<and> (0::real) < 1/1000 \<and>
   (1/1000 :: real) \<le>
     2 * ((1/4 / (1 / (1/2) - 1 + 1/2)) powr (1 - 1/2) * (1/2 / 1) powr (1/2))
           powr (1 / (1 - 1/4 - 1/2)) \<and>
   (\<exists>ks kvec.
      kstar (1/2) (1/2) 1 (1/2) (1/4) 1 = Inr ks \<and> ks = 1/144 \<and>
      kvec_build (1/2) (1/2) 1 (1/2) (1/4) 1 1 (1/1000) = Inr kvec \<and>
      length kvec = 4 \<and>
      (\<forall>i<length kvec.
         kvec ! (length kvec - 1 - i) = 2 * ks * (1 - 1/2) powr (real i / real 1)) \<and>
      (\<forall>k\<in>set kvec. 0 < k) \<and>
      sorted_wrt (<) kvec)"
proof -
  have h: "(0::real) < 1/2" "(1/2::real) < 1" "(0::real) < 1/4" "(1/4 + 1/2 :: real) < 1"
    "(0::real) < 1" "(1::nat) \<le> 1" "(0::real) < 1/1000"
    by simp_all
  have h11: "(1/1000 :: real) \<le>
     2 * ((1/4 / (1 / (1/2) - 1 + 1/2)) powr (1 - 1/2) * (1/2 / 1) powr (1/2))
           powr (1 / (1 - 1/4 - 1/2))"
    unfolding kstar_example by simp
  from C7_capital_grid[where delta = "1/2" and betafirm = "1/2" and alpha_k = "1/4"
      and alpha_l = "1/2" and w = 1 and dens = 1 and lb_k = "1/1000",
      OF h(1) h(2) h(1) h(2) h(3) h(1) h(4) h(5) h(6) h(7) h11]
  obtain ks kvec where
    r: "kstar (1/2) (1/2) 1 (1/2) (1/4) 1 = Inr ks"
       "ks = ((1/4 / (1 / (1/2) - 1 + 1/2)) powr (1 - 1/2) * (1/2 / 1) powr (1/2))
               powr (1 / (1 - 1/4 - 1/2))"
       "kvec_build (1/2) (1/2) 1 (1/2) (1/4) 1 1 (1/1000) = Inr kvec"
       "length kvec = nat \<lceil>ln ((1/1000) / (2 * ks)) / ln (1 - 1/2)\<rceil> * 1"
       "\<forall>i<length kvec.
          kvec ! (length kvec - 1 - i) = 2 * ks * (1 - 1/2) powr (real i / real 1)"
       "\<forall>k\<in>set kvec. 0 < k"
       "sorted_wrt (<) kvec"
    by blast
  have ks: "ks = 1/144" using r(2) by (simp only: kstar_example)
  have len: "length kvec = 4" using r(4) unfolding ks by (simp only: grid_size_example)
  show ?thesis
    using h h11 r(1,3,5,6,7) ks len by blast
qed

lemma op_vec_value:
  assumes "alpha_l \<noteq> 1" "0 < alpha_l / w"
  shows "op_vec alpha_l w alpha_k kvec =
           Inr (map (\<lambda>k. (1 - alpha_l) * (alpha_l / w) powr (alpha_l / (1 - alpha_l)) *
                          np_power (np_power k alpha_k) (1 / (1 - alpha_l))) kvec)"
proof -
  have "w \<noteq> 0" using assms(2) by auto
  then show ?thesis
    using assms by (simp add: op_vec_def and_then_def py_div_def py_pow_def)
qed

text \<open>
  Claim C6. For grid indices \<open>i, j\<close> with \<open>k_i > 0\<close> (and \<open>alpha_l / w > 0\<close>,
  \<open>alpha_l \<noteq> 1\<close>, so that the scalar factor of the operating profit is a real power:
  every \<open>0 < alpha_l < 1\<close>, \<open>w > 0\<close> qualifies) the entry \<open>e[i][j]\<close> of the payoff
  matrix is \<open>pi(k_i) - (k_j - (1 - delta) k_i) - (psi/2) ((k_j - (1 - delta) k_i) / k_i)^2 k_i\<close>
  with \<open>pi(k) = (1 - alpha_l) (alpha_l / w)^(alpha_l / (1 - alpha_l)) k^(alpha_k / (1 - alpha_l))\<close>.
\<close>

theorem C6_payoff_entry:
  assumes "alpha_l \<noteq> 1" "0 < alpha_l / w"
    and "i < length kvec" "j < length kvec" "0 < kvec ! i"
  shows "\<exists>opv. op_vec alpha_l w alpha_k kvec = Inr opv \<and>
           e_mat opv kvec delta psi ! i ! j =
             (1 - alpha_l) * (alpha_l / w) powr (alpha_l / (1 - alpha_l)) *
               (kvec ! i) powr (alpha_k / (1 - alpha_l))
             - (kvec ! j - (1 - delta) * kvec ! i)
             - (psi / 2) * ((kvec ! j - (1 - delta) * kvec ! i) / kvec ! i) ^ 2 * kvec ! i"
proof -
  let ?opv = "map (\<lambda>k. (1 - alpha_l) * (alpha_l / w) powr (alpha_l / (1 - alpha_l)) *
                          np_power (np_power k alpha_k) (1 / (1 - alpha_l))) kvec"
  have op: "op_vec alpha_l w alpha_k kvec = Inr ?opv"
    by (rule op_vec_value[OF assms(1,2)])
  have pw: "np_power (np_power (kvec ! i) alpha_k) (1 / (1 - alpha_l)) =
            (kvec ! i) powr (alpha_k / (1 - alpha_l))"
    by (simp add: np_power_def powr_powr)
  have adj: "(psi / 2) * ((kvec ! j - ((1 - delta) * kvec ! i)) ^ 2) / kvec ! i =
             (psi / 2) * ((kvec ! j - (1 - delta) * kvec ! i) / kvec ! i) ^ 2 * kvec ! i"
    using assms(5) by (simp add: power2_eq_square field_simps)
  have "e_mat ?opv kvec delta psi ! i ! j =
          ?opv ! i - kvec ! j + ((1 - delta) * kvec ! i) -
             ((psi / 2) * ((kvec ! j - ((1 - delta) * kvec ! i)) ^ 2) / kvec ! i)"
    using assms(3,4) by (simp add: e_mat_def Let_def)
  also have "\<dots> = (1 - alpha_l) * (alpha_l / w) powr (alpha_l / (1 - alpha_l)) *
               (kvec ! i) powr (alpha_k / (1 - alpha_l))
             - kvec ! j + ((1 - delta) * kvec ! i)
             - (psi / 2) * ((kvec ! j - (1 - delta) * kvec ! i) / kvec ! i) ^ 2 * kvec ! i"
    by (simp only: adj nth_map[OF assms(3)] pw)
  also have "\<dots> = (1 - alpha_l) * (alpha_l / w) powr (alpha_l / (1 - alpha_l)) *
               (kvec ! i) powr (alpha_k / (1 - alpha_l))
             - (kvec ! j - (1 - delta) * kvec ! i)
             - (psi / 2) * ((kvec ! j - (1 - delta) * kvec ! i) / kvec ! i) ^ 2 * kvec ! i"
    by simp
  finally show ?thesis using op by blast
qed

theorem C6_payoff_entry_witness:
  "(1/2::real) \<noteq> 1 \<and> (0::real) < 1/2 / 1 \<and>
   (0::nat) < length [1, 2 :: real] \<and> (1::nat) < length [1, 2 :: real] \<and>
   (0::real) < [1, 2] ! 0 \<and>
   (\<exists>opv. op_vec (1/2) 1 (1/4) [1, 2] = Inr opv \<and>
      e_mat opv [1, 2] (1/2) 1 ! 0 ! 1 =
        (1 - 1/2) * (1/2 / 1) powr (1/2 / (1 - 1/2)) * ([1, 2] ! 0) powr (1/4 / (1 - 1/2))
        - ([1, 2] ! 1 - (1 - 1/2) * [1, 2] ! 0)
        - (1 / 2) * (([1, 2] ! 1 - (1 - 1/2) * [1, 2] ! 0) / [1, 2] ! 0) ^ 2 * [1, 2] ! 0)"
proof -
  have h: "(1/2::real) \<noteq> 1" "(0::real) < 1/2 / 1"
    "(0::nat) < length [1, 2 :: real]" "(1::nat) < length [1, 2 :: real]"
    "(0::real) < [1, 2] ! 0"
    by simp_all
  show ?thesis
    using h C6_payoff_entry[where alpha_l = "1/2" and w = 1 and kvec = "[1, 2]" and i = 0
        and j = 1 and alpha_k = "1/4" and delta = "1/2" and psi = 1,
        OF h(1) h(2) h(3) h(4) h(5)]
    by blast
qed

section \<open>The Markov chain simulator\<close>

lemma sim_while_Inr:
  "sim_while pi' oldind ui sp ind = Inr m \<Longrightarrow>
     ind \<le> m \<and> \<not> (sp + (\<Sum>k=ind..<m. pi' ! k ! oldind) < ui) \<and>
     (\<forall>m'. ind \<le> m' \<and> m' < m \<longrightarrow>
        sp + (\<Sum>k=ind..<m'. pi' ! k ! oldind) < ui \<and> m' < length pi' \<and> oldind < length (pi' ! m'))"
proof (induction pi' oldind ui sp ind rule: sim_while.induct)
  case (1 pi' oldind ui sp ind)
  show ?case
  proof (cases "sp < ui")
    case False
    then have "m = ind" using "1.prems" by (subst (asm) sim_while.simps) auto
    then show ?thesis using False by auto
  next
    case True
    then obtain p where p: "getitem2 pi' ind oldind = Inr p"
      and rec: "sim_while pi' oldind ui (sp + p) (ind + 1) = Inr m"
      using "1.prems" by (subst (asm) sim_while.simps) (auto split: sum.splits)
    have pv: "p = pi' ! ind ! oldind" "ind < length pi'" "oldind < length (pi' ! ind)"
      using p by (auto simp: getitem2_def split: if_splits)
    note IH = "1.IH"[OF True p rec]
    have le: "ind + 1 \<le> m" using IH by simp
    have split_sum: "sp + (\<Sum>k=ind..<m'. pi' ! k ! oldind) = sp + p + (\<Sum>k=ind + 1..<m'. pi' ! k ! oldind)"
      if "ind + 1 \<le> m'" for m'
      using that pv(1) by (simp add: sum.atLeast_Suc_lessThan)
    have a: "\<not> (sp + (\<Sum>k=ind..<m. pi' ! k ! oldind) < ui)"
      using IH split_sum[OF le] by simp
    have b: "sp + (\<Sum>k=ind..<m'. pi' ! k ! oldind) < ui \<and> m' < length pi' \<and> oldind < length (pi' ! m')"
      if "ind \<le> m'" "m' < m" for m'
    proof (cases "m' = ind")
      case True
      then show ?thesis using \<open>sp < ui\<close> pv by simp
    next
      case False
      then have "ind + 1 \<le> m'" using that by simp
      then have "sp + p + (\<Sum>k=ind + 1..<m'. pi' ! k ! oldind) < ui \<and> m' < length pi' \<and>
          oldind < length (pi' ! m')"
        using IH that by simp
      then show ?thesis using split_sum[OF \<open>ind + 1 \<le> m'\<close>] by simp
    qed
    show ?thesis using le a b by auto
  qed
qed

lemma sim_while_Inl:
  "sim_while pi' oldind ui sp ind = Inl err \<Longrightarrow>
     err = IndexError \<and>
     (\<exists>m\<ge>ind. \<not> (m < length pi' \<and> oldind < length (pi' ! m)) \<and>
        (\<forall>m'. ind \<le> m' \<and> m' \<le> m \<longrightarrow> sp + (\<Sum>k=ind..<m'. pi' ! k ! oldind) < ui))"
proof (induction pi' oldind ui sp ind rule: sim_while.induct)
  case (1 pi' oldind ui sp ind)
  have lt: "sp < ui" using "1.prems" by (subst (asm) sim_while.simps) (auto split: if_splits)
  show ?case
  proof (cases "getitem2 pi' ind oldind")
    case (Inl err')
    then have "err = err'" using "1.prems" lt by (subst (asm) sim_while.simps) auto
    moreover have "err' = IndexError" "\<not> (ind < length pi' \<and> oldind < length (pi' ! ind))"
      using Inl by (auto simp: getitem2_def split: if_splits)
    ultimately show ?thesis using lt by (intro conjI exI[of _ ind]) auto
  next
    case (Inr p)
    then have rec: "sim_while pi' oldind ui (sp + p) (ind + 1) = Inl err"
      using "1.prems" lt by (subst (asm) sim_while.simps) auto
    have pv: "p = pi' ! ind ! oldind"
      using Inr by (auto simp: getitem2_def split: if_splits)
    from "1.IH"[OF lt Inr rec] obtain m where m: "err = IndexError" "ind + 1 \<le> m"
      "\<not> (m < length pi' \<and> oldind < length (pi' ! m))"
      "\<forall>m'. ind + 1 \<le> m' \<and> m' \<le> m \<longrightarrow> sp + p + (\<Sum>k=ind + 1..<m'. pi' ! k ! oldind) < ui"
      by blast
    have "sp + (\<Sum>k=ind..<m'. pi' ! k ! oldind) < ui" if "ind \<le> m'" "m' \<le> m" for m'
    proof (cases "m' = ind")
      case True
      then show ?thesis using lt by simp
    next
      case False
      then have "ind + 1 \<le> m'" using that by simp
      then have "sp + p + (\<Sum>k=ind + 1..<m'. pi' ! k ! oldind) < ui"
        using m(4) that by simp
      moreover have "(\<Sum>k=ind..<m'. pi' ! k ! oldind) = p + (\<Sum>k=ind + 1..<m'. pi' ! k ! oldind)"
        using \<open>ind + 1 \<le> m'\<close> pv by (simp add: sum.atLeast_Suc_lessThan)
      ultimately show ?thesis by simp
    qed
    then show ?thesis using m(1,2,3) by (intro conjI exI[of _ m]) auto
  qed
qed

lemma col_cum_eq: "col_cum pi' oldind m = (\<Sum>k=0..<m. pi' ! k ! oldind)"
  by (simp add: col_cum_def lessThan_atLeast0)

lemma next_index_Inr:
  assumes "next_index pi' oldind ui = Inr ind"
  shows "\<exists>m. sim_while pi' oldind ui 0 0 = Inr m \<and> ind = m - 1 \<and>
           \<not> (col_cum pi' oldind m < ui) \<and>
           (\<forall>m'<m. col_cum pi' oldind m' < ui \<and> m' < length pi' \<and> oldind < length (pi' ! m'))"
proof -
  from assms obtain m where m: "sim_while pi' oldind ui 0 0 = Inr m" "ind = m - 1"
    by (auto simp: next_index_def split: sum.splits if_splits)
  show ?thesis using sim_while_Inr[OF m(1)] m by (auto simp: col_cum_eq)
qed

lemma next_index_Inl:
  assumes "next_index pi' oldind ui = Inl err"
  shows "err = IndexError \<and>
     (\<exists>m. \<not> (m < length pi' \<and> oldind < length (pi' ! m)) \<and> (\<forall>m'\<le>m. col_cum pi' oldind m' < ui))"
proof -
  from assms have "sim_while pi' oldind ui 0 0 = Inl err"
    by (auto simp: next_index_def split: sum.splits)
  from sim_while_Inl[OF this] show ?thesis by (auto simp: col_cum_eq)
qed

lemma next_index_examples:
  "next_index [[1/2, 1/2], [1/4, 1/4]] 1 (1/2) = Inr 0"
  "next_index [[1/2, 1/2], [1/2, 1/2]] 0 (3/4) = Inr 1"
  "next_index [[0, 1], [0, 1]] 1 (1/2) = Inr 0"
  "next_index [[1/2, 1/2], [1/2, 1/2]] 0 (1/2) = Inr 0"
  by (simp_all add: next_index_def sim_while.simps getitem2_def)

lemma col_cum_examples:
  "col_cum [[1/2, 1/2], [1/4, 1/4]] 1 0 = 0"
  "col_cum [[1/2, 1/2], [1/4, 1/4]] 1 1 = 1/2"
  "col_cum [[1/2, 1/2], [1/4, 1/4]] 1 2 = 3/4"
  "col_cum [[1/2, 1/2], [1/2, 1/2]] 0 (0 + 1) = 1/2"
  "col_cum [[1/2, 1/2], [1/2, 1/2]] 0 (1 + 1) = 1"
  by (simp_all add: col_cum_def lessThan_Suc numeral_2_eq_2)

lemma sim_markov_example_fail:
  "sim_markov [0, 1] [[1/2, 1/2], [1/4, 1/4]] 2 (\<lambda>i. 9/10) = Inl IndexError"
  by (simp add: sim_markov_def getitem_def next_index_def sim_while.simps getitem2_def Let_def
        upt_rec)

lemma sim_markov_example_run:
  "sim_markov [10, 20, 30] [[1/2, 1/4, 1/4], [1/4, 1/2, 1/4], [1/4, 1/4, 1/2]] 3
     (\<lambda>i. if i = 1 then 9/10 else 1/10) = Inr [20, 30, 10]"
  by (simp add: sim_markov_def getitem_def next_index_def sim_while.simps getitem2_def Let_def
        upt_rec)

lemma sim_for_Inr:
  "sim_for z_grid pi' u oldind idxs = Inr zs \<Longrightarrow> length zs = length idxs \<and> set zs \<subseteq> set z_grid"
proof (induction idxs arbitrary: oldind zs)
  case Nil
  then show ?case by simp
next
  case (Cons i idxs)
  from Cons.prems obtain ind zi zs' where
    st: "next_index pi' oldind (u i) = Inr ind" "getitem z_grid ind = Inr zi"
        "sim_for z_grid pi' u ind idxs = Inr zs'" "zs = zi # zs'"
    by (auto split: sum.splits)
  have "zi \<in> set z_grid" using st(2) by (auto simp: getitem_def split: if_splits)
  then show ?case using Cons.IH[OF st(3)] st(4) by simp
qed

lemma sim_for_Inl:
  "sim_for z_grid pi' u oldind idxs = Inl err \<Longrightarrow> err = IndexError"
proof (induction idxs arbitrary: oldind)
  case Nil
  then show ?case by simp
next
  case (Cons i idxs)
  show ?case
  proof (cases "next_index pi' oldind (u i)")
    case (Inl e1)
    then show ?thesis using Cons.prems next_index_Inl[OF Inl] by simp
  next
    case (Inr ind)
    show ?thesis
    proof (cases "getitem z_grid ind")
      case (Inl e2)
      then have "e2 = IndexError" by (auto simp: getitem_def split: if_splits)
      then show ?thesis using Cons.prems Inr Inl by simp
    next
      case zi: (Inr zi)
      then show ?thesis using Cons.prems Inr Cons.IH[of ind] by (auto split: sum.splits)
    qed
  qed
qed

text \<open>
  Claim C2, as amended. The simulator has no clamp. For an \<open>N\<close> by \<open>N\<close> matrix and a
  current state below \<open>N\<close>: when the cumulative sum down the current state's column
  stays below the draw for all \<open>N\<close> rows, the next read \<open>pi[N, oldind]\<close> is out of bounds
  and the step raises IndexError; IndexError is the only failure of a step; and a step
  that returns selects an index within \<open>[0, N)\<close>.
\<close>

theorem C2_no_clamp:
  assumes "length pi' = N" and "list_all (\<lambda>row. length row = N) pi'" and "oldind < N"
  shows "(next_index pi' oldind ui = Inl IndexError \<longleftrightarrow> (\<forall>m\<le>N. col_cum pi' oldind m < ui)) \<and>
         (\<forall>err. next_index pi' oldind ui = Inl err \<longrightarrow> err = IndexError) \<and>
         (\<forall>ind. next_index pi' oldind ui = Inr ind \<longrightarrow> ind < N)"
proof -
  have rows: "\<forall>row\<in>set pi'. length row = N" using assms(2) by (simp add: list_all_iff)
  have inr: "m < length pi' \<and> oldind < length (pi' ! m) \<longleftrightarrow> m < N" for m
    using assms(1,3) rows by auto
  have A: "\<forall>m\<le>N. col_cum pi' oldind m < ui" if "next_index pi' oldind ui = Inl err" for err
  proof -
    from next_index_Inl[OF that] obtain m where
      m: "\<not> (m < length pi' \<and> oldind < length (pi' ! m))" "\<forall>m'\<le>m. col_cum pi' oldind m' < ui"
      by blast
    then have "N \<le> m" using inr[of m] by simp
    then show ?thesis using m(2) by auto
  qed
  have B: "ind < N \<and> \<not> (\<forall>m\<le>N. col_cum pi' oldind m < ui)"
    if "next_index pi' oldind ui = Inr ind" for ind
  proof -
    from next_index_Inr[OF that] obtain m where
      m: "ind = m - 1" "\<not> (col_cum pi' oldind m < ui)"
         "\<forall>m'<m. col_cum pi' oldind m' < ui \<and> m' < length pi' \<and> oldind < length (pi' ! m')"
      by blast
    have "m \<le> N"
    proof (rule ccontr)
      assume "\<not> m \<le> N"
      then have "N < m" by simp
      with m(3) have "N < length pi'" by blast
      then show False using assms(1) by simp
    qed
    then show ?thesis using m(1,2) assms(3) by auto
  qed
  have C: "err = IndexError" if "next_index pi' oldind ui = Inl err" for err
    using next_index_Inl[OF that] by simp
  show ?thesis
  proof (cases "next_index pi' oldind ui")
    case (Inl err)
    then show ?thesis using A[OF Inl] C[OF Inl] by auto
  next
    case (Inr ind)
    then show ?thesis using B[OF Inr] by auto
  qed
qed

theorem C2_no_clamp_witness:
  "length [[1/2, 1/2], [1/4, 1/4 :: real]] = 2 \<and>
   list_all (\<lambda>row. length row = 2) [[1/2, 1/2], [1/4, 1/4 :: real]] \<and>
   (1::nat) < 2 \<and>
   col_cum [[1/2, 1/2], [1/4, 1/4]] 1 0 < 9/10 \<and>
   col_cum [[1/2, 1/2], [1/4, 1/4]] 1 1 < 9/10 \<and>
   col_cum [[1/2, 1/2], [1/4, 1/4]] 1 2 < 9/10 \<and>
   next_index [[1/2, 1/2], [1/4, 1/4]] 1 (9/10) = Inl IndexError \<and>
   next_index [[1/2, 1/2], [1/4, 1/4]] 1 (1/2) = Inr 0 \<and> (0::nat) < 2"
proof -
  let ?P = "[[1/2, 1/2], [1/4, 1/4 :: real]]"
  have h1: "length ?P = 2" by simp
  have h2: "list_all (\<lambda>row. length row = 2) ?P" by simp
  have h3: "(1::nat) < 2" by simp
  have c: "col_cum ?P 1 0 < 9/10" "col_cum ?P 1 1 < 9/10" "col_cum ?P 1 2 < 9/10"
    unfolding col_cum_examples by simp_all
  have all: "\<forall>m\<le>2. col_cum ?P 1 m < 9/10"
  proof (intro allI impI)
    fix m :: nat
    assume "m \<le> 2"
    then have "m = 0 \<or> m = 1 \<or> m = 2" by auto
    then show "col_cum ?P 1 m < 9/10" using c by auto
  qed
  have fail: "next_index ?P 1 (9/10) = Inl IndexError"
    using C2_no_clamp[OF h1 h2 h3, of "9/10"] all by blast
  have h4: "(0::nat) < 2" by simp
  show ?thesis
    using h1 h2 h3 h4 c fail next_index_examples(1) by blast
qed

text \<open>
  Claim C2 as stated fails: on a two-state chain whose current column sums to 3/4 and
  a draw of 9/10 the simulator does not clamp to the last index (which would return
  the grid values \<open>[1, 1]\<close>); it raises IndexError.
\<close>

theorem C2_counterexample:
  "col_cum [[1/2, 1/2], [1/4, 1/4]] 1 2 < 9/10 \<and>
   sim_markov [0, 1] [[1/2, 1/2], [1/4, 1/4]] 2 (\<lambda>i. 9/10) = Inl IndexError \<and>
   sim_markov [0, 1] [[1/2, 1/2], [1/4, 1/4]] 2 (\<lambda>i. 9/10) \<noteq> Inr [1, 1]"
  unfolding sim_markov_example_fail col_cum_examples by simp

text \<open>
  Claim C4, as amended. At each step the simulator selects the smallest index whose
  cumulative sum, taken down the current state's column of the matrix argument, is at
  least the draw; for a draw that is not positive it selects index 0.
\<close>

theorem C4_selection:
  assumes "next_index pi' oldind ui = Inr ind"
  shows "(ui \<le> 0 \<longrightarrow> ind = 0) \<and>
         (0 < ui \<longrightarrow> ui \<le> col_cum pi' oldind (ind + 1) \<and> (\<forall>j<ind. col_cum pi' oldind (j + 1) < ui))"
proof -
  from next_index_Inr[OF assms] obtain m where
      m: "ind = m - 1" "\<not> (col_cum pi' oldind m < ui)"
         "\<forall>m'<m. col_cum pi' oldind m' < ui"
    by blast
  have c0: "col_cum pi' oldind 0 = 0" by (simp add: col_cum_def)
  have "ind = 0" if "ui \<le> 0"
  proof (rule ccontr)
    assume "ind \<noteq> 0"
    then have "0 < m" using m(1) by simp
    with m(3) have "col_cum pi' oldind 0 < ui" by blast
    then show False using that c0 by simp
  qed
  moreover have "ui \<le> col_cum pi' oldind (ind + 1) \<and> (\<forall>j<ind. col_cum pi' oldind (j + 1) < ui)"
    if "0 < ui"
  proof -
    have "m \<noteq> 0"
    proof
      assume "m = 0"
      then show False using m(2) c0 that by simp
    qed
    then have "ind + 1 = m" using m(1) by simp
    then show ?thesis using m(2,3) by auto
  qed
  ultimately show ?thesis by blast
qed

theorem C4_selection_witness:
  "next_index [[1/2, 1/2], [1/2, 1/2]] 0 (3/4) = Inr 1 \<and> (0::real) < 3/4 \<and>
   3/4 \<le> col_cum [[1/2, 1/2], [1/2, 1/2]] 0 (1 + 1) \<and>
   col_cum [[1/2, 1/2], [1/2, 1/2]] 0 (0 + 1) < 3/4"
proof -
  have r: "next_index [[1/2, 1/2], [1/2, 1/2]] 0 (3/4) = Inr 1"
    by (rule next_index_examples(2))
  have p: "(0::real) < 3/4" by simp
  from C4_selection[OF r] p
  have "3/4 \<le> col_cum [[1/2, 1/2], [1/2, 1/2]] 0 (1 + 1)"
    and "\<forall>j<1. col_cum [[1/2, 1/2], [1/2, 1/2]] 0 (j + 1) < 3/4"
    by blast+
  then show ?thesis using r p by blast
qed

text \<open>
  Claim C4 as stated fails twice. On the row-stochastic matrix \<open>[[0, 1], [0, 1]]\<close> in
  state 1 with draw 1/2 the row rule of the specification selects 1, the simulator
  reads column 1 and selects 0. On a symmetric matrix with draw 1/2 equal to the first
  cumulative sum the simulator selects 0, where the sum does not exceed the draw.
\<close>

theorem C4_counterexample:
  "next_index [[0, 1], [0, 1]] 1 (1/2) = Inr 0 \<and>
   spec_next_index [[0, 1], [0, 1]] 1 (1/2) = Some 1 \<and>
   next_index [[1/2, 1/2], [1/2, 1/2]] 0 (1/2) = Inr 0 \<and>
   spec_next_index [[1/2, 1/2], [1/2, 1/2]] 0 (1/2) = Some 1"
  unfolding next_index_examples by (simp add: spec_next_index_def upt_rec)

text \<open>
  Claim C10. The simulator fails only with IndexError, that is when an index leaves
  its bounds; when it returns, the grid is not empty, \<open>num_draws \<ge> 1\<close>, the result has
  length \<open>num_draws\<close>, each of its elements is a value of \<open>z_grid\<close>, and its first
  element is \<open>z_grid[ceil((N - 1) / 2)]\<close>.
\<close>

theorem C10_sim_markov_values:
  "case sim_markov z_grid pi' num_draws u of
     Inl err \<Rightarrow> err = IndexError
   | Inr zs \<Rightarrow>
       1 \<le> length z_grid \<and> 1 \<le> num_draws \<and> length zs = num_draws \<and> set zs \<subseteq> set z_grid \<and>
       nat \<lceil>(real (length z_grid) - 1) / 2\<rceil> < length z_grid \<and>
       zs ! 0 = z_grid ! nat \<lceil>(real (length z_grid) - 1) / 2\<rceil>"
proof (cases "sim_markov z_grid pi' num_draws u")
  case (Inl err)
  then have "err = IndexError"
    by (auto simp: sim_markov_def Let_def getitem_def split: sum.splits if_splits dest: sim_for_Inl)
  then show ?thesis using Inl by simp
next
  case (Inr zs)
  let ?o = "nat \<lceil>(real (length z_grid) - 1) / 2\<rceil>"
  from Inr obtain zs' where
    st: "?o < length z_grid" "num_draws \<noteq> 0"
        "sim_for z_grid pi' u ?o [1..<num_draws] = Inr zs'" "zs = z_grid ! ?o # zs'"
    by (auto simp: sim_markov_def Let_def getitem_def split: sum.splits if_splits)
  have "length zs' = num_draws - 1" "set zs' \<subseteq> set z_grid"
    using sim_for_Inr[OF st(3)] by simp_all
  then show ?thesis using Inr st by auto
qed

theorem C10_sim_markov_values_witness:
  "sim_markov [10, 20, 30] [[1/2, 1/4, 1/4], [1/4, 1/2, 1/4], [1/4, 1/4, 1/2]] 3
     (\<lambda>i. if i = 1 then 9/10 else 1/10) = Inr [20, 30, 10] \<and>
   length [20, 30, 10 :: real] = 3 \<and>
   set [20, 30, 10 :: real] \<subseteq> set [10, 20, 30] \<and>
   [20, 30, 10 :: real] ! 0 = [10, 20, 30] ! nat \<lceil>(real (length [10, 20, 30 :: real]) - 1) / 2\<rceil>"
  using C10_sim_markov_values[where z_grid = "[10, 20, 30]"
      and pi' = "[[1/2, 1/4, 1/4], [1/4, 1/2, 1/4], [1/4, 1/4, 1/2]]" and num_draws = 3
      and u = "\<lambda>i. if i = 1 then 9/10 else 1/10"]
  unfolding sim_markov_example_run sum.case by blast

end
